theory Spec2Isabelle
  imports Complex_Main "HOL-Library.Word"
begin

section \<open>The bid hash table of HashTable.cpp\<close>

text \<open>
  The table is a vector of head nodes, one per bucket, each the start of a singly linked
  overflow chain. An overflow node is allocated by \<open>Insert\<close> only, linked from exactly
  one predecessor, and freed by \<open>Remove\<close> right after it is unlinked, so no node is ever
  shared: the \<open>next\<close> pointer is modelled as an owned optional successor, \<open>nullptr\<close>
  being \<open>None\<close>. Unsigned int is a 32-bit word. The amount is a double that the table
  only stores and copies; it is modelled as a real number. Allocation failure is not
  modelled.
\<close>

subsection \<open>Data model\<close>

type_synonym uint = "32 word"

definition UINT_MAX :: uint where
  "UINT_MAX = 4294967295"

definition DEFAULT_SIZE :: uint where
  "DEFAULT_SIZE = 179"

record Bid =
  bidId :: string
  title :: string
  fund :: string
  amount :: real

text \<open>The default constructor \<open>Bid()\<close>: empty strings and amount 0.0.\<close>

definition Bid_default :: Bid where
  "Bid_default = \<lparr>bidId = [], title = [], fund = [], amount = 0\<rparr>"

datatype Node = Node (bid: Bid) (key: uint) (nxt: "Node option")

text \<open>
  The field \<open>next\<close> is the selector \<open>nxt\<close>, the source's name being a keyword here.
  The default constructor \<open>Node()\<close>: key \<open>UINT_MAX\<close>, no successor.
\<close>

definition Node_default :: Node where
  "Node_default = Node Bid_default UINT_MAX None"

record HashTable =
  nodes :: "Node list"
  tableSize :: uint

text \<open>
  What C++ leaves undefined is a fault of the model: the remainder by a table size of
  zero, and \<open>nodes[i]\<close> with \<open>i\<close> beyond the vector.
\<close>

datatype fault = DivisionByZero | OutOfRange

subsection \<open>Constructors\<close>

definition HashTable_default :: HashTable where
  "HashTable_default =
     \<lparr>nodes = replicate (unat DEFAULT_SIZE) Node_default, tableSize = DEFAULT_SIZE\<rparr>"

definition HashTable_size :: "uint \<Rightarrow> HashTable" where
  "HashTable_size sz =
     (let ts = (if sz = 0 then DEFAULT_SIZE else sz)
      in \<lparr>nodes = replicate (unat ts) Node_default, tableSize = ts\<rparr>)"

subsection \<open>Hashing\<close>

text \<open>
  \<open>std::hash<std::string>\<close> belongs to the standard library: it is the parameter \<open>h\<close>,
  a function from strings to \<open>size_t\<close> (64 bits here). The remainder is taken in
  \<open>size_t\<close> and converted back to unsigned int.
\<close>

definition hash :: "(string \<Rightarrow> 64 word) \<Rightarrow> HashTable \<Rightarrow> string \<Rightarrow> fault + uint" where
  "hash h t k =
     (if tableSize t = 0 then Inl DivisionByZero
      else Inr (ucast (h k mod ucast (tableSize t))))"

definition node_at :: "HashTable \<Rightarrow> uint \<Rightarrow> fault + Node" where
  "node_at t i = (if unat i < length (nodes t) then Inr (nodes t ! unat i) else Inl OutOfRange)"

subsection \<open>Insert\<close>

text \<open>
  The walk of \<open>Insert\<close> from \<open>curr_bucket\<close>: overwrite the first node holding the
  identifier, or append a new node with the bucket index as its key after the last one.
\<close>

fun Insert_walk :: "Bid \<Rightarrow> uint \<Rightarrow> Node \<Rightarrow> Node" where
  "Insert_walk b bucket_index (Node cb ck cn) =
     (case cn of
        Some nx \<Rightarrow>
          (if bidId cb = bidId b then Node b ck cn
           else Node cb ck (Some (Insert_walk b bucket_index nx)))
      | None \<Rightarrow>
          (if bidId cb = bidId b then Node b ck None
           else Node cb ck (Some (Node b bucket_index None))))"

definition Insert_head :: "Bid \<Rightarrow> uint \<Rightarrow> Node \<Rightarrow> Node" where
  "Insert_head b bucket_index head =
     (if key head = UINT_MAX then Node b bucket_index None
      else Insert_walk b bucket_index head)"

definition Insert :: "(string \<Rightarrow> 64 word) \<Rightarrow> HashTable \<Rightarrow> Bid \<Rightarrow> fault + HashTable" where
  "Insert h t b =
     (case hash h t (bidId b) of
        Inl e \<Rightarrow> Inl e
      | Inr bucket_index \<Rightarrow>
          (case node_at t bucket_index of
             Inl e \<Rightarrow> Inl e
           | Inr head \<Rightarrow>
               Inr (t\<lparr>nodes := (nodes t)[unat bucket_index := Insert_head b bucket_index head]\<rparr>)))"

subsection \<open>PrintAll\<close>

text \<open>
  The output is modelled as the list of printed rows, each the key and the bid of a node
  whose key is not \<open>UINT_MAX\<close>.
\<close>

fun PrintAll_walk :: "Node option \<Rightarrow> (uint \<times> Bid) list" where
  "PrintAll_walk None = []"
| "PrintAll_walk (Some (Node b k n)) =
     (if k \<noteq> UINT_MAX then [(k, b)] else []) @ PrintAll_walk n"

definition PrintAll :: "HashTable \<Rightarrow> fault + (uint \<times> Bid) list" where
  "PrintAll t =
     (if unat (tableSize t) \<le> length (nodes t)
      then Inr (concat (map (\<lambda>i. PrintAll_walk (Some (nodes t ! i))) [0..<unat (tableSize t)]))
      else Inl OutOfRange)"

subsection \<open>Remove\<close>

text \<open>
  The chain walk of \<open>Remove\<close> with \<open>prev_bucket\<close> the argument and \<open>curr_bucket\<close> its
  successor: the first successor holding the identifier is unlinked.
\<close>

fun Remove_walk :: "string \<Rightarrow> Node \<Rightarrow> Node" where
  "Remove_walk i (Node pb pk pn) =
     (case pn of
        None \<Rightarrow> Node pb pk None
      | Some curr_bucket \<Rightarrow>
          (if bidId (bid curr_bucket) = i then Node pb pk (nxt curr_bucket)
           else Node pb pk (Some (Remove_walk i curr_bucket))))"

definition Remove_head :: "string \<Rightarrow> Node \<Rightarrow> Node" where
  "Remove_head i head =
     (if key head = UINT_MAX \<and> nxt head = None then head
      else if key head \<noteq> UINT_MAX \<and> bidId (bid head) = i then
        (case nxt head of
           None \<Rightarrow> Node Bid_default UINT_MAX None
         | Some nextBucket \<Rightarrow> Node (bid nextBucket) (key nextBucket) (nxt nextBucket))
      else Remove_walk i head)"

definition Remove :: "(string \<Rightarrow> 64 word) \<Rightarrow> HashTable \<Rightarrow> string \<Rightarrow> fault + HashTable" where
  "Remove h t i =
     (case hash h t i of
        Inl e \<Rightarrow> Inl e
      | Inr bucket_index \<Rightarrow>
          (case node_at t bucket_index of
             Inl e \<Rightarrow> Inl e
           | Inr head \<Rightarrow>
               Inr (t\<lparr>nodes := (nodes t)[unat bucket_index := Remove_head i head]\<rparr>)))"

subsection \<open>Search\<close>

fun Search_walk :: "string \<Rightarrow> Node option \<Rightarrow> Bid" where
  "Search_walk i None = Bid_default"
| "Search_walk i (Some (Node b k n)) = (if bidId b = i then b else Search_walk i n)"

definition Search_head :: "string \<Rightarrow> Node \<Rightarrow> Bid" where
  "Search_head i head =
     (if key head \<noteq> UINT_MAX \<and> bidId (bid head) = i then bid head
      else Search_walk i (nxt head))"

definition Search :: "(string \<Rightarrow> 64 word) \<Rightarrow> HashTable \<Rightarrow> string \<Rightarrow> fault + Bid" where
  "Search h t i =
     (case hash h t i of
        Inl e \<Rightarrow> Inl e
      | Inr bucket_index \<Rightarrow>
          (case node_at t bucket_index of
             Inl e \<Rightarrow> Inl e
           | Inr head \<Rightarrow> Inr (Search_head i head)))"

subsection \<open>Sequences of operations\<close>

text \<open>
  A caller's sequence of \<open>Insert\<close> and \<open>Remove\<close> calls; \<open>run\<close> stops at the first fault.
\<close>

datatype op = OpInsert Bid | OpRemove string

fun apply_op :: "(string \<Rightarrow> 64 word) \<Rightarrow> HashTable \<Rightarrow> op \<Rightarrow> fault + HashTable" where
  "apply_op h t (OpInsert b) = Insert h t b"
| "apply_op h t (OpRemove i) = Remove h t i"

fun run :: "(string \<Rightarrow> 64 word) \<Rightarrow> HashTable \<Rightarrow> op list \<Rightarrow> fault + HashTable" where
  "run h t [] = Inr t"
| "run h t (x # xs) = (case apply_op h t x of Inl e \<Rightarrow> Inl e | Inr t' \<Rightarrow> run h t' xs)"

text \<open>
  The size invariant of the class: the constructors give the vector \<open>tableSize\<close> heads,
  \<open>tableSize\<close> is not zero, and no operation changes either.
\<close>

definition table_ok :: "HashTable \<Rightarrow> bool" where
  "table_ok t \<longleftrightarrow> tableSize t \<noteq> 0 \<and> length (nodes t) = unat (tableSize t)"

text \<open>The records a table enumerates, and the test of the caller for a search hit.\<close>

definition records :: "HashTable \<Rightarrow> Bid list" where
  "records t = (case PrintAll t of Inl e \<Rightarrow> [] | Inr rows \<Rightarrow> map snd rows)"

definition found :: "Bid \<Rightarrow> bool" where
  "found b \<longleftrightarrow> bidId b \<noteq> []"

subsection \<open>The specification's view: the present records, oldest first\<close>

text \<open>
  The specification describes the content of the table as the records present, identified
  by their identifiers; inserting a present identifier replaces its record where it is,
  inserting a new one adds it last, removing deletes it.
\<close>

definition spec_insert :: "Bid \<Rightarrow> Bid list \<Rightarrow> Bid list" where
  "spec_insert b xs =
     (if bidId b \<in> set (map bidId xs) then map (\<lambda>x. if bidId x = bidId b then b else x) xs
      else xs @ [b])"

definition spec_remove :: "string \<Rightarrow> Bid list \<Rightarrow> Bid list" where
  "spec_remove i xs = filter (\<lambda>x. bidId x \<noteq> i) xs"

fun spec_apply :: "Bid list \<Rightarrow> op \<Rightarrow> Bid list" where
  "spec_apply xs (OpInsert b) = spec_insert b xs"
| "spec_apply xs (OpRemove i) = spec_remove i xs"

definition spec_run :: "op list \<Rightarrow> Bid list" where
  "spec_run ops = foldl spec_apply [] ops"

text \<open>The bucket of an identifier, as a position in the vector.\<close>

definition slot :: "(string \<Rightarrow> 64 word) \<Rightarrow> uint \<Rightarrow> string \<Rightarrow> nat" where
  "slot h ts k = unat (h k) mod unat ts"

text \<open>
  The enumeration the specification asks for: buckets in ascending order, and in each
  bucket its present records, oldest first, each printed with the bucket index.
\<close>

definition spec_enumerate :: "(string \<Rightarrow> 64 word) \<Rightarrow> uint \<Rightarrow> Bid list \<Rightarrow> (uint \<times> Bid) list" where
  "spec_enumerate h ts xs =
     concat (map (\<lambda>i. map (\<lambda>b. (of_nat i, b)) (filter (\<lambda>b. slot h ts (bidId b) = i) xs))
                 [0..<unat ts])"

subsection \<open>The table that represents a list of present records\<close>

fun chain_of :: "uint \<Rightarrow> Bid list \<Rightarrow> Node option" where
  "chain_of k [] = None"
| "chain_of k (b # bs) = Some (Node b k (chain_of k bs))"

definition bucket_of :: "nat \<Rightarrow> Bid list \<Rightarrow> Node" where
  "bucket_of i bs =
     (case bs of [] \<Rightarrow> Node_default | b # bs' \<Rightarrow> Node b (of_nat i) (chain_of (of_nat i) bs'))"

definition table_of :: "(string \<Rightarrow> 64 word) \<Rightarrow> uint \<Rightarrow> Bid list \<Rightarrow> HashTable" where
  "table_of h ts xs =
     \<lparr>nodes = map (\<lambda>i. bucket_of i (filter (\<lambda>b. slot h ts (bidId b) = i) xs)) [0..<unat ts],
      tableSize = ts\<rparr>"

subsection \<open>A concrete table\<close>

text \<open>
  The scenario of the specification: a table of size 5 and a hash under which the
  identifiers \<open>A\<close> (65) and \<open>F\<close> (70) both fall into bucket 0.
\<close>

definition example_hash :: "string \<Rightarrow> 64 word" where
  "example_hash s = (case s of [] \<Rightarrow> 0 | c # cs \<Rightarrow> of_char c)"

definition example_bid :: "string \<Rightarrow> string \<Rightarrow> Bid" where
  "example_bid i t = \<lparr>bidId = i, title = t, fund = ''General Fund'', amount = 10\<rparr>"

text \<open>
  Three inserts, \<open>A\<close> and \<open>F\<close> colliding in bucket 0 and \<open>B\<close> alone in bucket 1; the
  table they give; the table after \<open>A\<close> is removed and \<open>F\<close> promoted into the head; and
  the table after \<open>F\<close> is removed too.
\<close>

definition example_ops :: "op list" where
  "example_ops =
     [OpInsert (example_bid ''A'' ''Chair''), OpInsert (example_bid ''F'' ''Desk''),
      OpInsert (example_bid ''B'' ''Lamp'')]"

definition example_table :: HashTable where
  "example_table =
     \<lparr>nodes = [Node (example_bid ''A'' ''Chair'') 0 (Some (Node (example_bid ''F'' ''Desk'') 0 None)),
               Node (example_bid ''B'' ''Lamp'') 1 None, Node_default, Node_default, Node_default],
      tableSize = 5\<rparr>"

definition example_promoted :: HashTable where
  "example_promoted =
     \<lparr>nodes = [Node (example_bid ''F'' ''Desk'') 0 None,
               Node (example_bid ''B'' ''Lamp'') 1 None, Node_default, Node_default, Node_default],
      tableSize = 5\<rparr>"

definition example_emptied :: HashTable where
  "example_emptied =
     \<lparr>nodes = [Node_default, Node (example_bid ''B'' ''Lamp'') 1 None,
               Node_default, Node_default, Node_default],
      tableSize = 5\<rparr>"

section \<open>Properties\<close>

subsection \<open>Hashing and indexing never fault on a table of the class\<close>

lemma unat_ucast64: "unat (ucast (ts::uint) :: 64 word) = unat ts"
proof -
  have "unat ts < 2 ^ 32" using unsigned_less[of ts, where ?'a = nat] by simp
  also have "(2::nat) ^ 32 < 2 ^ 64" by simp
  finally show ?thesis by (simp add: unsigned_ucast_eq take_bit_nat_eq_self)
qed

lemma hash_Inr: "tableSize t \<noteq> 0 \<Longrightarrow> hash h t k = Inr (of_nat (slot h (tableSize t) k))"
proof -
  assume "tableSize t \<noteq> 0"
  have "(ucast (h k mod ucast (tableSize t)) :: uint) = of_nat (unat (h k mod ucast (tableSize t)))"
    by (simp only: of_nat_unat)
  also have "unat (h k mod ucast (tableSize t)) = unat (h k) mod unat (tableSize t)"
    by (simp only: unat_mod unat_ucast64)
  finally show ?thesis using \<open>tableSize t \<noteq> 0\<close> by (simp add: hash_def slot_def)
qed

lemma slot_lt: "ts \<noteq> 0 \<Longrightarrow> slot h ts k < unat ts"
  unfolding slot_def by (simp add: unat_gt_0)

lemma unat_of_nat_lt: "i < unat (ts::uint) \<Longrightarrow> unat (of_nat i :: uint) = i"
proof -
  assume a: "i < unat ts"
  have "unat ts < 2 ^ 32" using unsigned_less[of ts, where ?'a = nat] by simp
  with a have "i < 2 ^ 32" by simp
  then show ?thesis by (simp add: unat_of_nat)
qed

lemma of_nat_neq_UINT_MAX: "i < unat (ts::uint) \<Longrightarrow> (of_nat i :: uint) \<noteq> UINT_MAX"
proof
  assume a: "i < unat ts" and e: "(of_nat i :: uint) = UINT_MAX"
  have "unat ts < 2 ^ 32" using unsigned_less[of ts, where ?'a = nat] by simp
  with a have "i < 4294967295" by simp
  moreover have "unat (of_nat i :: uint) = i" using a by (rule unat_of_nat_lt)
  ultimately show False using e by (simp add: UINT_MAX_def)
qed

lemma node_at_slot:
  "table_ok t \<Longrightarrow> node_at t (of_nat (slot h (tableSize t) k)) = Inr (nodes t ! slot h (tableSize t) k)"
  by (simp add: node_at_def table_ok_def slot_lt unat_of_nat_lt[of _ "tableSize t"])

lemma Insert_ok:
  "table_ok t \<Longrightarrow> Insert h t b =
     Inr (t\<lparr>nodes := (nodes t)[slot h (tableSize t) (bidId b) :=
            Insert_head b (of_nat (slot h (tableSize t) (bidId b))) (nodes t ! slot h (tableSize t) (bidId b))]\<rparr>)"
  by (simp add: Insert_def hash_Inr node_at_slot table_ok_def slot_lt unat_of_nat_lt[of _ "tableSize t"])

lemma Remove_ok:
  "table_ok t \<Longrightarrow> Remove h t i =
     Inr (t\<lparr>nodes := (nodes t)[slot h (tableSize t) i :=
            Remove_head i (nodes t ! slot h (tableSize t) i)]\<rparr>)"
  by (simp add: Remove_def hash_Inr node_at_slot table_ok_def slot_lt unat_of_nat_lt[of _ "tableSize t"])

lemma Search_ok:
  "table_ok t \<Longrightarrow> Search h t i = Inr (Search_head i (nodes t ! slot h (tableSize t) i))"
  by (simp add: Search_def hash_Inr node_at_slot table_ok_def)

lemma key_Insert_walk: "key (Insert_walk b k n) = key n"
  by (cases n) (simp split: option.splits)

lemma Search_walk_Insert_walk: "Search_walk (bidId b) (Some (Insert_walk b k n)) = b"
proof (induction n)
  case (Node cb ck cn)
  then show ?case by (cases cn) auto
qed

lemma Search_head_walk: "key n \<noteq> UINT_MAX \<Longrightarrow> Search_head i n = Search_walk i (Some n)"
  by (cases n) (simp add: Search_head_def)

lemma Search_head_Insert_head:
  "k \<noteq> UINT_MAX \<Longrightarrow> Search_head (bidId b) (Insert_head b k head) = b"
  by (simp add: Insert_head_def Search_head_walk key_Insert_walk Search_walk_Insert_walk)

subsection \<open>The operations on the representing table follow the specification\<close>

lemma spec_insert_Nil: "spec_insert b [] = [b]"
  by (simp add: spec_insert_def)

lemma map_upd_absent:
  "i \<notin> bidId ` set ys \<Longrightarrow> map (\<lambda>x. if bidId x = i then b else x) ys = ys"
  by (induction ys) auto

lemma spec_insert_Cons:
  "distinct (map bidId (y # ys)) \<Longrightarrow>
   spec_insert b (y # ys) = (if bidId y = bidId b then b # ys else y # spec_insert b ys)"
  by (auto simp: spec_insert_def map_upd_absent)

lemma spec_remove_Cons:
  "distinct (map bidId (y # ys)) \<Longrightarrow>
   spec_remove i (y # ys) = (if bidId y = i then ys else y # spec_remove i ys)"
  by (auto simp: spec_remove_def filter_id_conv image_iff)

lemma ids_spec_insert: "bidId ` set (spec_insert b xs) = insert (bidId b) (bidId ` set xs)"
  by (auto simp: spec_insert_def split: if_splits)

lemma distinct_spec_insert:
  "distinct (map bidId xs) \<Longrightarrow> distinct (map bidId (spec_insert b xs))"
proof (induction xs)
  case Nil
  then show ?case by (simp add: spec_insert_Nil)
next
  case (Cons y ys)
  then show ?case
    using ids_spec_insert[of b ys] by (auto simp: spec_insert_Cons[OF Cons.prems])
qed

lemma distinct_spec_remove:
  "distinct (map bidId xs) \<Longrightarrow> distinct (map bidId (spec_remove i xs))"
  by (simp add: spec_remove_def distinct_map_filter)

lemma Insert_walk_chain:
  "distinct (map bidId (y # ys)) \<Longrightarrow>
   Some (Insert_walk b k (Node y k (chain_of k ys))) = chain_of k (spec_insert b (y # ys))"
proof (induction ys arbitrary: y)
  case Nil
  then show ?case by (simp add: spec_insert_Cons spec_insert_Nil)
next
  case (Cons z zs)
  have d: "distinct (map bidId (z # zs))" using Cons.prems by simp
  show ?case
    using Cons.IH[OF d] by (simp add: spec_insert_Cons[OF Cons.prems])
qed

lemma Remove_walk_chain:
  "distinct (map bidId ys) \<Longrightarrow>
   Remove_walk i (Node y k (chain_of k ys)) = Node y k (chain_of k (spec_remove i ys))"
proof (induction ys arbitrary: y)
  case Nil
  then show ?case by (simp add: spec_remove_def)
next
  case (Cons z zs)
  have d: "distinct (map bidId zs)" using Cons.prems by simp
  show ?case
    using Cons.IH[OF d] by (simp add: spec_remove_Cons[OF Cons.prems])
qed

lemma Search_walk_chain:
  "Search_walk i (chain_of k ys) =
     (case find (\<lambda>b. bidId b = i) ys of None \<Rightarrow> Bid_default | Some b \<Rightarrow> b)"
  by (induction ys) auto

lemma PrintAll_walk_chain:
  "k \<noteq> UINT_MAX \<Longrightarrow> PrintAll_walk (chain_of k ys) = map (\<lambda>b. (k, b)) ys"
  by (induction ys) auto

lemma Insert_head_bucket_of:
  assumes "i < unat (ts::uint)" and "distinct (map bidId ys)"
  shows "Insert_head b (of_nat i) (bucket_of i ys) = bucket_of i (spec_insert b ys)"
proof (cases ys)
  case Nil
  then show ?thesis
    by (simp add: Insert_head_def bucket_of_def Node_default_def spec_insert_Nil)
next
  case (Cons z zs)
  have ne: "(of_nat i :: uint) \<noteq> UINT_MAX" using assms(1) by (rule of_nat_neq_UINT_MAX)
  obtain w ws where sp: "spec_insert b (z # zs) = w # ws"
    using assms(2) Cons by (cases "spec_insert b (z # zs)") (auto simp: spec_insert_Cons split: if_splits)
  have "Some (Insert_walk b (of_nat i) (Node z (of_nat i) (chain_of (of_nat i) zs))) =
        chain_of (of_nat i) (spec_insert b (z # zs))"
    using assms(2) Cons by (intro Insert_walk_chain) simp
  then show ?thesis
    using ne Cons sp by (simp add: Insert_head_def bucket_of_def)
qed

lemma Remove_head_bucket_of:
  assumes "i < unat (ts::uint)" and "distinct (map bidId ys)"
  shows "Remove_head k (bucket_of i ys) = bucket_of i (spec_remove k ys)"
proof (cases ys)
  case Nil
  then show ?thesis
    by (simp add: Remove_head_def bucket_of_def Node_default_def spec_remove_def)
next
  case (Cons z zs)
  have ne: "(of_nat i :: uint) \<noteq> UINT_MAX" using assms(1) by (rule of_nat_neq_UINT_MAX)
  have d: "distinct (map bidId zs)" using assms(2) Cons by simp
  show ?thesis
  proof (cases "bidId z = k")
    case True
    then show ?thesis
      using ne Cons assms(2)
      by (cases zs) (simp_all add: Remove_head_def bucket_of_def spec_remove_Cons Node_default_def)
  next
    case False
    then show ?thesis
      using ne Cons assms(2) Remove_walk_chain[OF d, of k z "of_nat i"]
      by (simp add: Remove_head_def bucket_of_def spec_remove_Cons)
  qed
qed

lemma Search_head_bucket_of:
  assumes "i < unat (ts::uint)"
  shows "Search_head k (bucket_of i ys) =
     (case find (\<lambda>b. bidId b = k) ys of None \<Rightarrow> Bid_default | Some b \<Rightarrow> b)"
proof -
  have ne: "(of_nat i :: uint) \<noteq> UINT_MAX" using assms(1) by (rule of_nat_neq_UINT_MAX)
  show ?thesis
    using ne by (cases ys) (simp_all add: Search_head_def bucket_of_def Node_default_def Search_walk_chain)
qed

lemma PrintAll_walk_bucket_of:
  assumes "i < unat (ts::uint)"
  shows "PrintAll_walk (Some (bucket_of i ys)) = map (\<lambda>b. (of_nat i, b)) ys"
proof -
  have ne: "(of_nat i :: uint) \<noteq> UINT_MAX" using assms(1) by (rule of_nat_neq_UINT_MAX)
  show ?thesis
    using ne by (cases ys) (simp_all add: bucket_of_def Node_default_def PrintAll_walk_chain)
qed

lemma filter_spec_insert:
  "filter (\<lambda>x. slot h ts (bidId x) = i) (spec_insert b xs) =
     (if slot h ts (bidId b) = i then spec_insert b (filter (\<lambda>x. slot h ts (bidId x) = i) xs)
      else filter (\<lambda>x. slot h ts (bidId x) = i) xs)"
proof -
  let ?P = "\<lambda>x. slot h ts (bidId x) = i"
  let ?f = "\<lambda>x. if bidId x = bidId b then b else x"
  have m: "filter ?P (map ?f xs) =
             (if slot h ts (bidId b) = i then map ?f (filter ?P xs) else filter ?P xs)"
    by (induction xs) auto
  have a: "slot h ts (bidId b) = i \<Longrightarrow>
             bidId b \<in> bidId ` set (filter ?P xs) \<longleftrightarrow> bidId b \<in> bidId ` set xs"
    by (auto simp: image_iff)
  show ?thesis
    using m a by (simp add: spec_insert_def)
qed

lemma filter_spec_remove:
  "filter (\<lambda>x. slot h ts (bidId x) = i) (spec_remove k xs) =
     (if slot h ts k = i then spec_remove k (filter (\<lambda>x. slot h ts (bidId x) = i) xs)
      else filter (\<lambda>x. slot h ts (bidId x) = i) xs)"
  unfolding spec_remove_def by (induction xs) auto

lemma length_table_of: "length (nodes (table_of h ts xs)) = unat ts"
  by (simp add: table_of_def)

lemma tableSize_table_of: "tableSize (table_of h ts xs) = ts"
  by (simp add: table_of_def)

lemma nth_table_of:
  "i < unat ts \<Longrightarrow>
   nodes (table_of h ts xs) ! i = bucket_of i (filter (\<lambda>b. slot h ts (bidId b) = i) xs)"
  by (simp add: table_of_def)

lemma table_ok_table_of: "ts \<noteq> 0 \<Longrightarrow> table_ok (table_of h ts xs)"
  by (simp add: table_ok_def table_of_def)

lemma table_eqI:
  "tableSize t = ts \<Longrightarrow> length (nodes t) = unat ts \<Longrightarrow>
   (\<And>i. i < unat ts \<Longrightarrow> nodes t ! i = bucket_of i (filter (\<lambda>b. slot h ts (bidId b) = i) xs)) \<Longrightarrow>
   t = table_of h ts xs"
  by (cases t) (simp add: table_of_def list_eq_iff_nth_eq)

lemma Insert_table_of:
  assumes "ts \<noteq> 0" and "distinct (map bidId xs)"
  shows "Insert h (table_of h ts xs) b = Inr (table_of h ts (spec_insert b xs))"
proof -
  let ?t = "table_of h ts xs"
  let ?s = "slot h ts (bidId b)"
  let ?t' = "?t\<lparr>nodes := (nodes ?t)[?s := Insert_head b (of_nat ?s) (nodes ?t ! ?s)]\<rparr>"
  have lt: "?s < unat ts" using assms(1) by (rule slot_lt)
  have "?t' = table_of h ts (spec_insert b xs)"
  proof (rule table_eqI)
    show "tableSize ?t' = ts" by (simp add: tableSize_table_of)
    show "length (nodes ?t') = unat ts" by (simp add: length_table_of)
    fix i assume i: "i < unat ts"
    show "nodes ?t' ! i = bucket_of i (filter (\<lambda>b. slot h ts (bidId b) = i) (spec_insert b xs))"
    proof (cases "i = ?s")
      case True
      have d: "distinct (map bidId (filter (\<lambda>b. slot h ts (bidId b) = i) xs))"
        using assms(2) by (rule distinct_map_filter)
      show ?thesis
        using True lt Insert_head_bucket_of[OF i d, of b]
        by (simp add: length_table_of nth_table_of filter_spec_insert)
    next
      case False
      then show ?thesis
        using i by (simp add: nth_table_of filter_spec_insert)
    qed
  qed
  then show ?thesis
    using Insert_ok[OF table_ok_table_of[OF assms(1)]]
    by (simp add: tableSize_table_of)
qed

lemma Remove_table_of:
  assumes "ts \<noteq> 0" and "distinct (map bidId xs)"
  shows "Remove h (table_of h ts xs) k = Inr (table_of h ts (spec_remove k xs))"
proof -
  let ?t = "table_of h ts xs"
  let ?s = "slot h ts k"
  let ?t' = "?t\<lparr>nodes := (nodes ?t)[?s := Remove_head k (nodes ?t ! ?s)]\<rparr>"
  have lt: "?s < unat ts" using assms(1) by (rule slot_lt)
  have "?t' = table_of h ts (spec_remove k xs)"
  proof (rule table_eqI)
    show "tableSize ?t' = ts" by (simp add: tableSize_table_of)
    show "length (nodes ?t') = unat ts" by (simp add: length_table_of)
    fix i assume i: "i < unat ts"
    show "nodes ?t' ! i = bucket_of i (filter (\<lambda>b. slot h ts (bidId b) = i) (spec_remove k xs))"
    proof (cases "i = ?s")
      case True
      have d: "distinct (map bidId (filter (\<lambda>b. slot h ts (bidId b) = i) xs))"
        using assms(2) by (rule distinct_map_filter)
      show ?thesis
        using True lt Remove_head_bucket_of[OF i d, of k]
        by (simp add: length_table_of nth_table_of filter_spec_remove)
    next
      case False
      then show ?thesis
        using i by (simp add: nth_table_of filter_spec_remove)
    qed
  qed
  then show ?thesis
    using Remove_ok[OF table_ok_table_of[OF assms(1)]]
    by (simp add: tableSize_table_of)
qed

lemma find_filter_slot:
  "find (\<lambda>b. bidId b = k) (filter (\<lambda>b. slot h ts (bidId b) = slot h ts k) xs) =
   find (\<lambda>b. bidId b = k) xs"
  by (induction xs) auto

lemma Search_table_of:
  assumes "ts \<noteq> 0"
  shows "Search h (table_of h ts xs) k =
           Inr (case find (\<lambda>b. bidId b = k) xs of None \<Rightarrow> Bid_default | Some b \<Rightarrow> b)"
  using Search_ok[OF table_ok_table_of[OF assms]] slot_lt[OF assms, of h k]
  by (simp add: tableSize_table_of nth_table_of Search_head_bucket_of[OF slot_lt[OF assms]]
                find_filter_slot)

lemma PrintAll_table_of:
  "PrintAll (table_of h ts xs) = Inr (spec_enumerate h ts xs)"
proof -
  have eq: "map (\<lambda>i. PrintAll_walk (Some (nodes (table_of h ts xs) ! i))) [0..<unat ts] =
        map (\<lambda>i. map (\<lambda>b. (of_nat i, b)) (filter (\<lambda>b. slot h ts (bidId b) = i) xs)) [0..<unat ts]"
    by (rule map_cong) (simp_all add: nth_table_of PrintAll_walk_bucket_of[of _ ts])
  show ?thesis
    unfolding PrintAll_def spec_enumerate_def tableSize_table_of length_table_of eq by simp
qed

lemma HashTable_size_table_of:
  "HashTable_size sz = table_of h (if sz = 0 then DEFAULT_SIZE else sz) []"
  by (rule table_eqI) (simp_all add: HashTable_size_def Let_def bucket_of_def)

lemma DEFAULT_SIZE_neq_0: "DEFAULT_SIZE \<noteq> 0"
  by (simp add: DEFAULT_SIZE_def)

lemma distinct_spec_apply:
  "distinct (map bidId xs) \<Longrightarrow> distinct (map bidId (spec_apply xs x))"
  by (cases x) (simp_all add: distinct_spec_insert distinct_spec_remove)

lemma apply_op_table_of:
  "ts \<noteq> 0 \<Longrightarrow> distinct (map bidId xs) \<Longrightarrow>
   apply_op h (table_of h ts xs) x = Inr (table_of h ts (spec_apply xs x))"
  by (cases x) (simp_all add: Insert_table_of Remove_table_of)

lemma run_table_of:
  "ts \<noteq> 0 \<Longrightarrow> distinct (map bidId xs) \<Longrightarrow>
   run h (table_of h ts xs) ops = Inr (table_of h ts (foldl spec_apply xs ops))"
proof (induction ops arbitrary: xs)
  case Nil
  then show ?case by simp
next
  case (Cons x ops)
  then show ?case
    by (simp add: apply_op_table_of distinct_spec_apply)
qed

lemma distinct_foldl_spec_apply:
  "distinct (map bidId xs) \<Longrightarrow> distinct (map bidId (foldl spec_apply xs ops))"
  by (induction ops arbitrary: xs) (simp_all add: distinct_spec_apply)

lemma distinct_spec_run: "distinct (map bidId (spec_run ops))"
  by (simp add: spec_run_def distinct_foldl_spec_apply)

lemma run_HashTable_size:
  "run h (HashTable_size sz) ops =
     Inr (table_of h (if sz = 0 then DEFAULT_SIZE else sz) (spec_run ops))"
  using run_table_of[of "if sz = 0 then DEFAULT_SIZE else sz" "[]" h ops]
  by (simp add: HashTable_size_table_of[of sz h] spec_run_def DEFAULT_SIZE_neq_0)

subsection \<open>Round trip\<close>

text \<open>
  C1. On every table with its \<open>tableSize\<close> heads, \<open>Insert\<close> of a record \<open>R\<close> returns a
  table on which \<open>Search\<close> of the identifier of \<open>R\<close> returns \<open>R\<close> itself, all four
  fields included. The identifier need not even be non-empty.
\<close>

theorem C1_round_trip:
  assumes "table_ok t"
  shows "\<exists>t'. Insert h t R = Inr t' \<and> table_ok t' \<and> Search h t' (bidId R) = Inr R"
proof -
  let ?s = "slot h (tableSize t) (bidId R)"
  let ?t' = "t\<lparr>nodes := (nodes t)[?s := Insert_head R (of_nat ?s) (nodes t ! ?s)]\<rparr>"
  have ok: "table_ok ?t'" using assms by (simp add: table_ok_def)
  have lt: "?s < unat (tableSize t)" using assms by (simp add: table_ok_def slot_lt)
  have "Search h ?t' (bidId R) = Inr (Search_head (bidId R) (nodes ?t' ! ?s))"
    using Search_ok[OF ok, of h "bidId R"] by simp
  also have "nodes ?t' ! ?s = Insert_head R (of_nat ?s) (nodes t ! ?s)"
    using assms lt by (simp add: table_ok_def)
  also have "Search_head (bidId R) \<dots> = R"
    by (rule Search_head_Insert_head) (rule of_nat_neq_UINT_MAX[OF lt])
  finally show ?thesis using Insert_ok[OF assms, of h R] ok by simp
qed

theorem C1_round_trip_witness:
  "table_ok (HashTable_size 5) \<and>
   (\<exists>t'. Insert example_hash (HashTable_size 5) (example_bid ''A'' ''Chair'') = Inr t' \<and>
         table_ok t' \<and> Search example_hash t' ''A'' = Inr (example_bid ''A'' ''Chair''))"
proof -
  have ok: "table_ok (HashTable_size 5)" by code_simp
  have i: "bidId (example_bid ''A'' ''Chair'') = ''A''" by code_simp
  show ?thesis
    using ok C1_round_trip [OF ok, of example_hash "example_bid ''A'' ''Chair''"]
    by (simp only: i)
qed

subsection \<open>Every table reached from a fresh one represents the present records\<close>

lemma HashTable_default_size: "HashTable_default = HashTable_size 0"
  by (simp add: HashTable_default_def HashTable_size_def)

lemma run_never_faults: "\<exists>t. run h (HashTable_size sz) ops = Inr t"
  by (simp add: run_HashTable_size)

lemma reachable_tableSize:
  "run h (HashTable_size sz) ops = Inr t \<Longrightarrow> tableSize t \<noteq> 0"
  by (cases "sz = 0") (auto simp: run_HashTable_size tableSize_table_of DEFAULT_SIZE_neq_0)

lemma reachable_repr:
  assumes "run h (HashTable_size sz) ops = Inr t"
  shows "t = table_of h (tableSize t) (spec_run ops)"
  using assms by (auto simp: run_HashTable_size tableSize_table_of)

lemma length_filter_disj:
  "length (filter (\<lambda>b. f b = n) xs) + length (filter (\<lambda>b. f b < n) xs) =
   length (filter (\<lambda>b. f b < Suc n) xs)"
  by (induction xs) (auto simp: less_Suc_eq)

lemma length_enumerate_upto:
  "length (concat (map (\<lambda>i. map (\<lambda>b. (of_nat i :: uint, b)) (filter (\<lambda>b. slot h ts (bidId b) = i) xs)) [0..<n])) =
   length (filter (\<lambda>b. slot h ts (bidId b) < n) xs)"
proof (induction n)
  case 0
  then show ?case by simp
next
  case (Suc n)
  then show ?case
    using length_filter_disj[of "\<lambda>b. slot h ts (bidId b)" n xs] by simp
qed

lemma map_snd_enumerate_upto:
  "map snd (concat (map (\<lambda>i. map (\<lambda>b. (of_nat i :: uint, b)) (filter (\<lambda>b. slot h ts (bidId b) = i) xs)) [0..<n])) =
   concat (map (\<lambda>i. filter (\<lambda>b. slot h ts (bidId b) = i) xs) [0..<n])"
  by (induction n) (simp_all add: comp_def)

lemma set_records_upto:
  "set (concat (map (\<lambda>i. filter (\<lambda>b. slot h ts (bidId b) = i) xs) [0..<n])) =
   {b \<in> set xs. slot h ts (bidId b) < n}"
  by (induction n) (auto simp: less_Suc_eq)

lemma distinct_records_upto:
  "distinct (map bidId xs) \<Longrightarrow>
   distinct (map bidId (concat (map (\<lambda>i. filter (\<lambda>b. slot h ts (bidId b) = i) xs) [0..<n])))"
proof (induction n)
  case 0
  then show ?case by simp
next
  case (Suc n)
  have "bidId ` {b \<in> set xs. slot h ts (bidId b) < n} \<inter> bidId ` {b \<in> set xs. slot h ts (bidId b) = n} = {}"
    by auto
  then show ?case
    using Suc by (simp add: set_records_upto distinct_map_filter del: set_concat)
qed

lemma records_table_of:
  "records (table_of h ts xs) = concat (map (\<lambda>i. filter (\<lambda>b. slot h ts (bidId b) = i) xs) [0..<unat ts])"
  by (simp add: records_def PrintAll_table_of spec_enumerate_def map_snd_enumerate_upto)

lemma set_records_table_of: "ts \<noteq> 0 \<Longrightarrow> set (records (table_of h ts xs)) = set xs"
  by (auto simp: records_table_of set_records_upto slot_lt)

lemma distinct_records_table_of:
  "distinct (map bidId xs) \<Longrightarrow> distinct (map bidId (records (table_of h ts xs)))"
  by (simp add: records_table_of distinct_records_upto)

lemma length_records_table_of: "ts \<noteq> 0 \<Longrightarrow> length (records (table_of h ts xs)) = length xs"
proof -
  assume "ts \<noteq> 0"
  then have "filter (\<lambda>b. slot h ts (bidId b) < unat ts) xs = xs"
    by (simp add: slot_lt)
  then show ?thesis
    using length_enumerate_upto[of h ts xs "unat ts"]
    by (simp add: records_def PrintAll_table_of spec_enumerate_def)
qed

lemma find_distinct:
  "distinct (map bidId xs) \<Longrightarrow> x \<in> set xs \<Longrightarrow> find (\<lambda>b. bidId b = bidId x) xs = Some x"
  by (induction xs) (auto simp: image_iff)

lemma find_absent:
  "k \<notin> bidId ` set xs \<Longrightarrow> find (\<lambda>b. bidId b = k) xs = None"
  by (induction xs) auto

lemma find_spec_remove_same: "find (\<lambda>b. bidId b = k) (spec_remove k xs) = None"
  by (simp add: spec_remove_def find_None_iff)

lemma find_spec_remove_other:
  "k' \<noteq> k \<Longrightarrow> find (\<lambda>b. bidId b = k') (spec_remove k xs) = find (\<lambda>b. bidId b = k') xs"
  unfolding spec_remove_def by (induction xs) auto

lemma filter_distinct_id:
  "distinct (map bidId xs) \<Longrightarrow> x \<in> set xs \<Longrightarrow> filter (\<lambda>b. bidId b = bidId x) xs = [x]"
  by (induction xs) (auto simp: image_iff filter_empty_conv)

lemma in_spec_insert: "b \<in> set (spec_insert b xs)"
  by (auto simp: spec_insert_def image_iff)

lemma length_spec_insert_present:
  "bidId b \<in> bidId ` set xs \<Longrightarrow> length (spec_insert b xs) = length xs"
  by (simp add: spec_insert_def)

lemma spec_remove_absent: "k \<notin> bidId ` set xs \<Longrightarrow> spec_remove k xs = xs"
  by (auto simp: spec_remove_def filter_id_conv)

lemma spec_remove_idem: "spec_remove k (spec_remove k xs) = spec_remove k xs"
  by (simp add: spec_remove_def)

lemma key_bucket_of:
  "key (bucket_of i ys) = (if ys = [] then UINT_MAX else of_nat i)"
  by (cases ys) (simp_all add: bucket_of_def Node_default_def)

lemma nxt_bucket_of_Nil: "nxt (bucket_of i []) = None"
  by (simp add: bucket_of_def Node_default_def)

lemma PrintAll_heads:
  assumes "table_ok t"
  shows "PrintAll t =
           Inr (concat (map (\<lambda>head. (if key head \<noteq> UINT_MAX then [(key head, bid head)] else []) @
                                    PrintAll_walk (nxt head))
                            (nodes t)))"
proof -
  let ?F = "\<lambda>head. (if key head \<noteq> UINT_MAX then [(key head, bid head)] else []) @
                   PrintAll_walk (nxt head)"
  have w: "PrintAll_walk (Some n) = ?F n" for n
    by (cases n) simp
  have l: "unat (tableSize t) = length (nodes t)"
    using assms by (simp add: table_ok_def)
  have "map (\<lambda>i. PrintAll_walk (Some (nodes t ! i))) [0..<length (nodes t)] =
        map ?F (map (\<lambda>i. nodes t ! i) [0..<length (nodes t)])"
    unfolding w by (simp only: map_map comp_def)
  also have "\<dots> = map ?F (nodes t)"
    by (simp only: map_nth)
  finally show ?thesis
    unfolding PrintAll_def l by simp
qed

subsection \<open>The concrete runs\<close>

lemma example_run: "run example_hash (HashTable_size 5) example_ops = Inr example_table"
  by code_simp

lemma example_run_promoted:
  "run example_hash (HashTable_size 5) (example_ops @ [OpRemove ''A'']) = Inr example_promoted"
  by code_simp

lemma example_run_emptied:
  "run example_hash (HashTable_size 5) (example_ops @ [OpRemove ''A'', OpRemove ''F'']) =
     Inr example_emptied"
  by code_simp

subsection \<open>Update, not duplicate\<close>

text \<open>
  C2. On every table reached from a fresh one, inserting \<open>R1\<close> and then \<open>R2\<close> with the
  same identifier leaves exactly one enumerated record with that identifier, \<open>R2\<close>, and
  the second insert does not change the number of records enumerated. The payloads may
  differ or not, and the identifier may be any string.
\<close>

theorem C2_update_not_duplicate:
  assumes "run h (HashTable_size sz) ops = Inr t" and "bidId R1 = bidId R2"
  shows "\<exists>t1 t2. Insert h t R1 = Inr t1 \<and> Insert h t1 R2 = Inr t2 \<and>
           filter (\<lambda>b. bidId b = bidId R2) (records t2) = [R2] \<and>
           length (records t2) = length (records t1)"
proof -
  let ?ts = "tableSize t"
  let ?xs = "spec_run ops"
  let ?ys = "spec_insert R1 ?xs"
  let ?zs = "spec_insert R2 ?ys"
  have ts: "?ts \<noteq> 0" using assms(1) by (rule reachable_tableSize)
  have t: "t = table_of h ?ts ?xs" using assms(1) by (rule reachable_repr)
  have dx: "distinct (map bidId ?xs)" by (rule distinct_spec_run)
  have dy: "distinct (map bidId ?ys)" using dx by (rule distinct_spec_insert)
  have dz: "distinct (map bidId ?zs)" using dy by (rule distinct_spec_insert)
  have i1: "Insert h t R1 = Inr (table_of h ?ts ?ys)"
    using Insert_table_of[OF ts dx, of h R1] t by simp
  have i2: "Insert h (table_of h ?ts ?ys) R2 = Inr (table_of h ?ts ?zs)"
    using ts dy by (rule Insert_table_of)
  have "R2 \<in> set (records (table_of h ?ts ?zs))"
    by (simp add: set_records_table_of[OF ts] in_spec_insert)
  then have f: "filter (\<lambda>b. bidId b = bidId R2) (records (table_of h ?ts ?zs)) = [R2]"
    using distinct_records_table_of[OF dz] by (intro filter_distinct_id)
  have "bidId R2 \<in> bidId ` set ?ys"
    using assms(2) in_spec_insert[of R1 ?xs] by (metis imageI)
  then have l: "length (records (table_of h ?ts ?zs)) = length (records (table_of h ?ts ?ys))"
    by (simp add: length_records_table_of[OF ts] length_spec_insert_present)
  show ?thesis using i1 i2 f l by blast
qed

theorem C2_update_not_duplicate_witness:
  "run example_hash (HashTable_size 5) example_ops = Inr example_table \<and>
   bidId (example_bid ''F'' ''Desk'') = bidId (example_bid ''F'' ''Table'') \<and>
   (\<exists>t1 t2. Insert example_hash example_table (example_bid ''F'' ''Desk'') = Inr t1 \<and>
            Insert example_hash t1 (example_bid ''F'' ''Table'') = Inr t2 \<and>
            filter (\<lambda>b. bidId b = bidId (example_bid ''F'' ''Table'')) (records t2) =
              [example_bid ''F'' ''Table''] \<and>
            length (records t2) = length (records t1))"
proof -
  have e: "bidId (example_bid ''F'' ''Desk'') = bidId (example_bid ''F'' ''Table'')"
    by code_simp
  show ?thesis
    using example_run e C2_update_not_duplicate [OF example_run e] by blast
qed

subsection \<open>Collision independence\<close>

text \<open>
  C3. On every table reached from a fresh one, two enumerated records \<open>Ra\<close> and \<open>Rb\<close>
  with distinct identifiers, in the same bucket or not, are each returned by \<open>Search\<close> of
  their identifier; after \<open>Remove\<close> of the identifier of \<open>Ra\<close>, \<open>Search\<close> still returns
  \<open>Rb\<close> and returns the default bid for the identifier of \<open>Ra\<close>.
\<close>

theorem C3_collision_independence:
  assumes "run h (HashTable_size sz) ops = Inr t"
    and "Ra \<in> set (records t)" and "Rb \<in> set (records t)" and "bidId Ra \<noteq> bidId Rb"
  shows "Search h t (bidId Ra) = Inr Ra \<and> Search h t (bidId Rb) = Inr Rb \<and>
         (\<exists>t'. Remove h t (bidId Ra) = Inr t' \<and>
               Search h t' (bidId Rb) = Inr Rb \<and> Search h t' (bidId Ra) = Inr Bid_default)"
proof -
  let ?ts = "tableSize t"
  let ?xs = "spec_run ops"
  have ts: "?ts \<noteq> 0" using assms(1) by (rule reachable_tableSize)
  have t: "t = table_of h ?ts ?xs" using assms(1) by (rule reachable_repr)
  have dx: "distinct (map bidId ?xs)" by (rule distinct_spec_run)
  have a: "Ra \<in> set ?xs" using assms(2) set_records_table_of[OF ts, of h ?xs] t by simp
  have b: "Rb \<in> set ?xs" using assms(3) set_records_table_of[OF ts, of h ?xs] t by simp
  have sa: "Search h t (bidId Ra) = Inr Ra"
    using Search_table_of[OF ts, of h ?xs "bidId Ra"] t find_distinct[OF dx a] by simp
  have sb: "Search h t (bidId Rb) = Inr Rb"
    using Search_table_of[OF ts, of h ?xs "bidId Rb"] t find_distinct[OF dx b] by simp
  have r: "Remove h t (bidId Ra) = Inr (table_of h ?ts (spec_remove (bidId Ra) ?xs))"
    using Remove_table_of[OF ts dx, of h "bidId Ra"] t by simp
  have rb: "Search h (table_of h ?ts (spec_remove (bidId Ra) ?xs)) (bidId Rb) = Inr Rb"
    using assms(4) find_distinct[OF dx b]
    by (simp add: Search_table_of[OF ts] find_spec_remove_other)
  have ra: "Search h (table_of h ?ts (spec_remove (bidId Ra) ?xs)) (bidId Ra) = Inr Bid_default"
    by (simp add: Search_table_of[OF ts] find_spec_remove_same)
  show ?thesis using sa sb r rb ra by blast
qed

theorem C3_collision_independence_witness:
  "run example_hash (HashTable_size 5) example_ops = Inr example_table \<and>
   example_bid ''A'' ''Chair'' \<in> set (records example_table) \<and>
   example_bid ''F'' ''Desk'' \<in> set (records example_table) \<and>
   bidId (example_bid ''A'' ''Chair'') \<noteq> bidId (example_bid ''F'' ''Desk'') \<and>
   hash example_hash example_table ''A'' = hash example_hash example_table ''F'' \<and>
   Search example_hash example_table ''A'' = Inr (example_bid ''A'' ''Chair'') \<and>
   Search example_hash example_table ''F'' = Inr (example_bid ''F'' ''Desk'') \<and>
   (\<exists>t'. Remove example_hash example_table ''A'' = Inr t' \<and>
         Search example_hash t' ''F'' = Inr (example_bid ''F'' ''Desk'') \<and>
         Search example_hash t' ''A'' = Inr Bid_default)"
proof -
  have a: "example_bid ''A'' ''Chair'' \<in> set (records example_table)" by code_simp
  have f: "example_bid ''F'' ''Desk'' \<in> set (records example_table)" by code_simp
  have n: "bidId (example_bid ''A'' ''Chair'') \<noteq> bidId (example_bid ''F'' ''Desk'')"
    by code_simp
  have c: "hash example_hash example_table ''A'' = hash example_hash example_table ''F''"
    by code_simp
  have ia: "bidId (example_bid ''A'' ''Chair'') = ''A''" by code_simp
  have jf: "bidId (example_bid ''F'' ''Desk'') = ''F''" by code_simp
  show ?thesis
    using example_run a f n c C3_collision_independence [OF example_run a f n]
    unfolding ia jf by blast
qed

subsection \<open>Enumeration\<close>

text \<open>
  C4. After any sequence of operations on a fresh table, \<open>PrintAll\<close> prints the present
  records of the specification bucket by bucket in ascending index order and, within a
  bucket, oldest first; in each bucket it prints the head first, unless unoccupied, and
  then the overflow chain in order; the records printed are exactly the present ones, as
  many as there are, and no identifier is printed twice.
\<close>

theorem C4_enumeration:
  assumes "run h (HashTable_size sz) ops = Inr t"
  shows "PrintAll t = Inr (spec_enumerate h (tableSize t) (spec_run ops)) \<and>
         PrintAll t =
           Inr (concat (map (\<lambda>head. (if key head \<noteq> UINT_MAX then [(key head, bid head)] else []) @
                                    PrintAll_walk (nxt head))
                            (nodes t))) \<and>
         set (records t) = set (spec_run ops) \<and>
         length (records t) = length (spec_run ops) \<and>
         distinct (map bidId (records t))"
proof -
  let ?ts = "tableSize t"
  let ?xs = "spec_run ops"
  have ts: "?ts \<noteq> 0" using assms(1) by (rule reachable_tableSize)
  have t: "t = table_of h ?ts ?xs" using assms(1) by (rule reachable_repr)
  have dx: "distinct (map bidId ?xs)" by (rule distinct_spec_run)
  have p: "PrintAll t = Inr (spec_enumerate h ?ts ?xs)"
    using PrintAll_table_of[of h ?ts ?xs] t by simp
  have s: "set (records t) = set ?xs"
    using set_records_table_of[OF ts, of h ?xs] t by simp
  have l: "length (records t) = length ?xs"
    using length_records_table_of[OF ts, of h ?xs] t by simp
  have d: "distinct (map bidId (records t))"
    using distinct_records_table_of[OF dx, of h ?ts] t by simp
  have "table_ok t" using table_ok_table_of[OF ts, of h ?xs] t by simp
  then have q: "PrintAll t =
       Inr (concat (map (\<lambda>head. (if key head \<noteq> UINT_MAX then [(key head, bid head)] else []) @
                                PrintAll_walk (nxt head))
                        (nodes t)))"
    by (rule PrintAll_heads)
  show ?thesis using p q s l d by blast
qed

theorem C4_enumeration_witness:
  "run example_hash (HashTable_size 5) example_ops = Inr example_table \<and>
   PrintAll example_table =
     Inr [(0, example_bid ''A'' ''Chair''), (0, example_bid ''F'' ''Desk''),
          (1, example_bid ''B'' ''Lamp'')] \<and>
   set (records example_table) = set (spec_run example_ops) \<and>
   length (records example_table) = length (spec_run example_ops) \<and>
   distinct (map bidId (records example_table))"
proof -
  have s: "spec_enumerate example_hash (tableSize example_table) (spec_run example_ops) =
           [(0, example_bid ''A'' ''Chair''), (0, example_bid ''F'' ''Desk''),
            (1, example_bid ''B'' ''Lamp'')]"
    by code_simp
  show ?thesis
    using example_run C4_enumeration [OF example_run] unfolding s by blast
qed

subsection \<open>Invariants of the heads\<close>

text \<open>
  C5. In every table reached from a fresh one by \<open>Insert\<close> and \<open>Remove\<close>, an occupied head
  (key not \<open>UINT_MAX\<close>) has its own index as key, also after \<open>Remove\<close> has promoted an
  overflow node into it.
\<close>

theorem C5_occupied_head_key:
  assumes "run h (HashTable_size sz) ops = Inr t"
    and "i < length (nodes t)" and "key (nodes t ! i) \<noteq> UINT_MAX"
  shows "key (nodes t ! i) = of_nat i"
proof -
  let ?ts = "tableSize t"
  have t: "t = table_of h ?ts (spec_run ops)" using assms(1) by (rule reachable_repr)
  have i: "i < unat ?ts" using assms(2) t length_table_of[of h ?ts "spec_run ops"] by simp
  have "nodes t ! i = bucket_of i (filter (\<lambda>b. slot h ?ts (bidId b) = i) (spec_run ops))"
    using nth_table_of[OF i, of h "spec_run ops"] t by simp
  then show ?thesis using assms(3) by (simp add: key_bucket_of split: if_splits)
qed

theorem C5_occupied_head_key_witness:
  "run example_hash (HashTable_size 5) (example_ops @ [OpRemove ''A'']) = Inr example_promoted \<and>
   0 < length (nodes example_promoted) \<and> key (nodes example_promoted ! 0) \<noteq> UINT_MAX \<and>
   key (nodes example_promoted ! 0) = of_nat 0"
proof -
  have l: "0 < length (nodes example_promoted)" by code_simp
  have k: "key (nodes example_promoted ! 0) \<noteq> UINT_MAX" by code_simp
  show ?thesis
    using example_run_promoted l k C5_occupied_head_key [OF example_run_promoted l k] by blast
qed

text \<open>
  C10. In every table reached from a fresh one by \<open>Insert\<close> and \<open>Remove\<close>, a head whose
  key is \<open>UINT_MAX\<close> has no overflow chain: its \<open>next\<close> pointer is null.
\<close>

theorem C10_unoccupied_head_no_chain:
  assumes "run h (HashTable_size sz) ops = Inr t"
    and "i < length (nodes t)" and "key (nodes t ! i) = UINT_MAX"
  shows "nxt (nodes t ! i) = None"
proof -
  let ?ts = "tableSize t"
  have t: "t = table_of h ?ts (spec_run ops)" using assms(1) by (rule reachable_repr)
  have i: "i < unat ?ts" using assms(2) t length_table_of[of h ?ts "spec_run ops"] by simp
  have n: "nodes t ! i = bucket_of i (filter (\<lambda>b. slot h ?ts (bidId b) = i) (spec_run ops))"
    using nth_table_of[OF i, of h "spec_run ops"] t by simp
  have "(of_nat i :: uint) \<noteq> UINT_MAX" using i by (rule of_nat_neq_UINT_MAX)
  then have "filter (\<lambda>b. slot h ?ts (bidId b) = i) (spec_run ops) = []"
    using assms(3) n by (simp add: key_bucket_of split: if_splits)
  then show ?thesis using n by (simp add: nxt_bucket_of_Nil)
qed

theorem C10_unoccupied_head_no_chain_witness:
  "run example_hash (HashTable_size 5) (example_ops @ [OpRemove ''A'', OpRemove ''F'']) =
     Inr example_emptied \<and>
   0 < length (nodes example_emptied) \<and> key (nodes example_emptied ! 0) = UINT_MAX \<and>
   nxt (nodes example_emptied ! 0) = None"
proof -
  have l: "0 < length (nodes example_emptied)" by code_simp
  have k: "key (nodes example_emptied ! 0) = UINT_MAX" by code_simp
  show ?thesis
    using example_run_emptied l k C10_unoccupied_head_no_chain [OF example_run_emptied l k]
    by blast
qed

subsection \<open>Remove\<close>

text \<open>
  C6. On every table reached from a fresh one, \<open>Remove\<close> of an identifier returns a table
  on which the same \<open>Remove\<close> changes nothing, and \<open>Remove\<close> of an identifier that no
  enumerated record has returns the table unchanged.
\<close>

theorem C6_remove_idempotent:
  assumes "run h (HashTable_size sz) ops = Inr t"
  shows "\<exists>t'. Remove h t i = Inr t' \<and> Remove h t' i = Inr t' \<and>
              (i \<notin> bidId ` set (records t) \<longrightarrow> t' = t)"
proof -
  let ?ts = "tableSize t"
  let ?xs = "spec_run ops"
  have ts: "?ts \<noteq> 0" using assms(1) by (rule reachable_tableSize)
  have t: "t = table_of h ?ts ?xs" using assms(1) by (rule reachable_repr)
  have dx: "distinct (map bidId ?xs)" by (rule distinct_spec_run)
  have dr: "distinct (map bidId (spec_remove i ?xs))" using dx by (rule distinct_spec_remove)
  have r1: "Remove h t i = Inr (table_of h ?ts (spec_remove i ?xs))"
    using Remove_table_of[OF ts dx, of h i] t by simp
  have r2: "Remove h (table_of h ?ts (spec_remove i ?xs)) i = Inr (table_of h ?ts (spec_remove i ?xs))"
    using Remove_table_of[OF ts dr, of h i] by (simp add: spec_remove_idem)
  have s: "set (records t) = set ?xs"
    using set_records_table_of[OF ts, of h ?xs] t by simp
  have "i \<notin> bidId ` set (records t) \<longrightarrow> table_of h ?ts (spec_remove i ?xs) = t"
    using t by (simp add: s spec_remove_absent)
  then show ?thesis using r1 r2 by blast
qed

theorem C6_remove_idempotent_witness:
  "run example_hash (HashTable_size 5) example_ops = Inr example_table \<and>
   (\<exists>t'. Remove example_hash example_table ''A'' = Inr t' \<and>
         Remove example_hash t' ''A'' = Inr t') \<and>
   run example_hash (HashTable_size 5) (example_ops @ [OpRemove ''A'']) = Inr example_promoted \<and>
   ''A'' \<notin> bidId ` set (records example_promoted) \<and>
   Remove example_hash example_promoted ''A'' = Inr example_promoted"
proof -
  have n: "''A'' \<notin> bidId ` set (records example_promoted)" by code_simp
  show ?thesis
    using example_run example_run_promoted n
      C6_remove_idempotent [OF example_run, of "''A''"]
      C6_remove_idempotent [OF example_run_promoted, of "''A''"]
    by metis
qed

subsection \<open>Search\<close>

text \<open>
  C7. On every table reached from a fresh one, \<open>Search\<close> returns a bid for every
  identifier, never a fault, and for an identifier that no enumerated record has it
  returns the default bid: empty identifier, empty title and fund, amount 0.
\<close>

theorem C7_search_miss:
  assumes "run h (HashTable_size sz) ops = Inr t"
  shows "(\<exists>r. Search h t i = Inr r) \<and>
         (i \<notin> bidId ` set (records t) \<longrightarrow> Search h t i = Inr Bid_default) \<and>
         bidId Bid_default = [] \<and> title Bid_default = [] \<and> fund Bid_default = [] \<and>
         amount Bid_default = 0"
proof -
  let ?ts = "tableSize t"
  let ?xs = "spec_run ops"
  have ts: "?ts \<noteq> 0" using assms(1) by (rule reachable_tableSize)
  have t: "t = table_of h ?ts ?xs" using assms(1) by (rule reachable_repr)
  have s: "set (records t) = set ?xs"
    using set_records_table_of[OF ts, of h ?xs] t by simp
  have se: "Search h t i = Inr (case find (\<lambda>b. bidId b = i) ?xs of None \<Rightarrow> Bid_default | Some b \<Rightarrow> b)"
    using Search_table_of[OF ts, of h ?xs i] t by simp
  then have m: "i \<notin> bidId ` set (records t) \<longrightarrow> Search h t i = Inr Bid_default"
    by (simp add: s find_absent)
  show ?thesis using se m by (simp add: Bid_default_def)
qed

theorem C7_search_miss_witness:
  "run example_hash (HashTable_size 5) (example_ops @ [OpRemove ''A'']) = Inr example_promoted \<and>
   ''A'' \<notin> bidId ` set (records example_promoted) \<and>
   Search example_hash example_promoted ''A'' = Inr Bid_default \<and>
   bidId Bid_default = []"
proof -
  have n: "''A'' \<notin> bidId ` set (records example_promoted)" by code_simp
  show ?thesis
    using example_run_promoted n C7_search_miss [OF example_run_promoted, of "''A''"] by blast
qed

subsection \<open>Frame of Remove\<close>

text \<open>
  C8. On every table with its \<open>tableSize\<close> heads, \<open>Remove\<close> of an identifier returns a
  table of the same size in which the head and chain of every bucket other than the one
  at \<open>hash\<close> of the identifier are unchanged.
\<close>

theorem C8_remove_frame:
  assumes "table_ok t" and "hash h t i = Inr bucket_index"
    and "j < length (nodes t)" and "j \<noteq> unat bucket_index"
  shows "\<exists>t'. Remove h t i = Inr t' \<and> tableSize t' = tableSize t \<and>
              length (nodes t') = length (nodes t) \<and> nodes t' ! j = nodes t ! j"
proof -
  have ts: "tableSize t \<noteq> 0" using assms(1) by (simp add: table_ok_def)
  have "bucket_index = of_nat (slot h (tableSize t) i)"
    using assms(2) hash_Inr[OF ts, of h i] by simp
  then have "unat bucket_index = slot h (tableSize t) i"
    using unat_of_nat_lt[OF slot_lt[OF ts, of h i]] by simp
  then show ?thesis
    using assms(4) Remove_ok[OF assms(1), of h i] by simp
qed

theorem C8_remove_frame_witness:
  "table_ok example_table \<and> hash example_hash example_table ''A'' = Inr 0 \<and>
   1 < length (nodes example_table) \<and> 1 \<noteq> unat (0 :: uint) \<and>
   (\<exists>t'. Remove example_hash example_table ''A'' = Inr t' \<and>
         tableSize t' = tableSize example_table \<and>
         length (nodes t') = length (nodes example_table) \<and>
         nodes t' ! 1 = nodes example_table ! 1)"
proof -
  have ok: "table_ok example_table" by code_simp
  have hs: "hash example_hash example_table ''A'' = Inr 0" by code_simp
  have l: "1 < length (nodes example_table)" by code_simp
  have n: "1 \<noteq> unat (0 :: uint)" by simp
  show ?thesis
    using ok hs l n C8_remove_frame [OF ok hs l n] by blast
qed

subsection \<open>Empty identifiers\<close>

text \<open>
  C9. On every table reached from a fresh one, \<open>Insert\<close> of a record with the empty
  identifier returns a table that enumerates the record and on which \<open>Search\<close> of the
  empty string returns it; the test of the caller, whether the identifier of the result
  is non-empty, gives the same answer for it as for the default bid of a miss.
\<close>

theorem C9_empty_identifier:
  assumes "run h (HashTable_size sz) ops = Inr t" and "bidId R = []"
  shows "\<exists>t'. Insert h t R = Inr t' \<and> R \<in> set (records t') \<and>
              Search h t' [] = Inr R \<and> found R = found Bid_default"
proof -
  let ?ts = "tableSize t"
  let ?xs = "spec_run ops"
  let ?ys = "spec_insert R ?xs"
  have ts: "?ts \<noteq> 0" using assms(1) by (rule reachable_tableSize)
  have t: "t = table_of h ?ts ?xs" using assms(1) by (rule reachable_repr)
  have dx: "distinct (map bidId ?xs)" by (rule distinct_spec_run)
  have dy: "distinct (map bidId ?ys)" using dx by (rule distinct_spec_insert)
  have i1: "Insert h t R = Inr (table_of h ?ts ?ys)"
    using Insert_table_of[OF ts dx, of h R] t by simp
  have m: "R \<in> set (records (table_of h ?ts ?ys))"
    by (simp add: set_records_table_of[OF ts] in_spec_insert)
  have s: "Search h (table_of h ?ts ?ys) [] = Inr R"
    using find_distinct[OF dy in_spec_insert[of R ?xs]] assms(2)
    by (simp add: Search_table_of[OF ts])
  have f: "found R = found Bid_default"
    using assms(2) by (simp add: found_def Bid_default_def)
  show ?thesis using i1 m s f by blast
qed

theorem C9_empty_identifier_witness:
  "run example_hash (HashTable_size 5) example_ops = Inr example_table \<and>
   bidId (example_bid [] ''Nameless'') = [] \<and>
   (\<exists>t'. Insert example_hash example_table (example_bid [] ''Nameless'') = Inr t' \<and>
         example_bid [] ''Nameless'' \<in> set (records t') \<and>
         Search example_hash t' [] = Inr (example_bid [] ''Nameless'') \<and>
         found (example_bid [] ''Nameless'') = found Bid_default)"
proof -
  have e: "bidId (example_bid [] ''Nameless'') = []" by code_simp
  show ?thesis
    using example_run e C9_empty_identifier [OF example_run e] by blast
qed

end
